theory Spec2Isabelle
  imports Main "HOL-Library.Sublist"
begin

section \<open>Text as Python sees it\<close>

text \<open>
  A Python \<open>str\<close> is a sequence of Unicode code points, so a character is a natural
  number (its code point) and a string is a list of them. Nothing below depends on the
  code point being below \<open>0x110000\<close>: every statement holds for any list of naturals.
\<close>

type_synonym str = "nat list"

definition str_of :: "string \<Rightarrow> str" where
  \<comment> \<open>an ASCII literal of the source, as code points\<close>
  "str_of s = map of_char s"

definition Py_UNICODE_ISSPACE :: "nat \<Rightarrow> bool" where
  \<comment> \<open>the characters that \<open>\s\<close> of a \<open>str\<close> pattern and \<open>str.strip()\<close> treat as whitespace
      (CPython's \<open>_PyUnicode_IsWhitespace\<close>)\<close>
  "Py_UNICODE_ISSPACE c \<longleftrightarrow>
     (0x09 \<le> c \<and> c \<le> 0x0D) \<or> (0x1C \<le> c \<and> c \<le> 0x20) \<or> c = 0x85 \<or> c = 0xA0 \<or>
     c = 0x1680 \<or> (0x2000 \<le> c \<and> c \<le> 0x200A) \<or> c = 0x2028 \<or> c = 0x2029 \<or>
     c = 0x202F \<or> c = 0x205F \<or> c = 0x3000"

section \<open>The compiled pattern (clean_text.py, lines 53-55)\<close>

definition char_class :: "nat \<Rightarrow> bool" where
  \<comment> \<open>the items between \<open>[^\<close> and \<open>]\<close>, in the order of the source\<close>
  "char_class c \<longleftrightarrow>
     (0x4E00 \<le> c \<and> c \<le> 0x9FA5) \<or> (0x61 \<le> c \<and> c \<le> 0x7A) \<or> (0x41 \<le> c \<and> c \<le> 0x5A) \<or>
     (0x30 \<le> c \<and> c \<le> 0x39) \<or> Py_UNICODE_ISSPACE c \<or>
     c = 0x2C \<or> c = 0x2E \<or> c = 0x21 \<or> c = 0x3F \<or> c = 0x3B \<or> c = 0x3A \<or>
     c = 0xFF0C \<or> c = 0x3002 \<or> c = 0xFF01 \<or> c = 0xFF1F \<or> c = 0xFF1B \<or> c = 0xFF1A \<or>
     c = 0x27 \<or> c = 0x22 \<or> c = 0x201C \<or> c = 0x201D \<or> c = 0x2018 \<or> c = 0x2019 \<or>
     c = 0x3001 \<or> c = 0x7E \<or> c = 0x300A \<or> c = 0x300B \<or> c = 0x3008 \<or> c = 0x3009 \<or>
     c = 0x3010 \<or> c = 0x3011 \<or> c = 0x3016 \<or> c = 0x3017 \<or> c = 0x2026 \<or> c = 0x2014 \<or>
     c = 0x2D \<or> c = 0xB7"

definition pattern_matches :: "nat \<Rightarrow> bool" where
  \<comment> \<open>the class is negated: the pattern matches one character outside it\<close>
  "pattern_matches c \<longleftrightarrow> \<not> char_class c"

fun pattern_sub :: "str \<Rightarrow> str" where
  \<comment> \<open>\<open>pattern.sub('', line)\<close>: scan left to right, drop each match, copy the rest\<close>
  "pattern_sub [] = []"
| "pattern_sub (c # cs) = (if pattern_matches c then pattern_sub cs else c # pattern_sub cs)"

section \<open>Stripping and the body of the loop (lines 69-75)\<close>

definition lstrip :: "str \<Rightarrow> str" where
  "lstrip s = dropWhile Py_UNICODE_ISSPACE s"

definition rstrip :: "str \<Rightarrow> str" where
  "rstrip s = rev (dropWhile Py_UNICODE_ISSPACE (rev s))"

definition strip :: "str \<Rightarrow> str" where
  \<comment> \<open>\<open>str.strip()\<close> with no argument\<close>
  "strip s = rstrip (lstrip s)"

definition filterLine :: "str \<Rightarrow> str option" where
  \<comment> \<open>what one iteration hands to \<open>out_file.write\<close> before the terminator is added:
      \<open>None\<close> when the \<open>if stripped_line:\<close> test fails and nothing is written\<close>
  "filterLine line =
     (let cleaned_line = pattern_sub line;
          stripped_line = strip cleaned_line
      in if stripped_line \<noteq> [] then Some stripped_line else None)"

section \<open>Reading the input and the loop over its lines (lines 63-75)\<close>

fun translate_newlines :: "str \<Rightarrow> str" where
  \<comment> \<open>\<open>open(..., 'r')\<close> with the default \<open>newline=None\<close>: \<open>\r\n\<close> and a lone \<open>\r\<close>
      both reach the program as \<open>\n\<close>\<close>
  "translate_newlines [] = []"
| "translate_newlines [c] = [if c = 0x0D then 0x0A else c]"
| "translate_newlines (c # d # cs) =
     (if c = 0x0D \<and> d = 0x0A then 0x0A # translate_newlines cs
      else if c = 0x0D then 0x0A # translate_newlines (d # cs)
      else c # translate_newlines (d # cs))"

fun readlines :: "str \<Rightarrow> str list" where
  \<comment> \<open>iterating a text file: each line runs up to and including the next \<open>\n\<close>;
      what is left at the end of the file is a last line without terminator\<close>
  "readlines [] = []"
| "readlines (c # cs) =
     (if c = 0x0A then [c] # readlines cs
      else (case readlines cs of [] \<Rightarrow> [c] # [] | l # ls \<Rightarrow> (c # l) # ls))"

definition in_file :: "str \<Rightarrow> str list" where
  \<comment> \<open>the lines the \<open>for\<close> statement sees, for a file whose decoded text is \<open>content\<close>\<close>
  "in_file content = readlines (translate_newlines content)"

definition file_write :: "str list \<Rightarrow> str \<Rightarrow> str list" where
  \<comment> \<open>\<open>out_file.write(s)\<close>; the file is kept as the sequence of strings written so far\<close>
  "file_write out_file s = out_file @ [s]"

fun for_loop :: "str list \<Rightarrow> str list \<Rightarrow> str list" where
  \<comment> \<open>the second pass over the lines of the input\<close>
  "for_loop [] out_file = out_file"
| "for_loop (line # rest) out_file =
     (let cleaned_line = pattern_sub line;
          stripped_line = strip cleaned_line
      in if stripped_line \<noteq> [] then for_loop rest (file_write out_file (stripped_line @ [0x0A]))
         else for_loop rest out_file)"

definition out_file_writes :: "str \<Rightarrow> str list" where
  "out_file_writes content = for_loop (in_file content) []"

definition out_file_content :: "str \<Rightarrow> str" where
  \<comment> \<open>the output is opened with \<open>newline='\n'\<close>: what is written is stored unchanged\<close>
  "out_file_content content = concat (out_file_writes content)"

section \<open>The output path (lines 48-49)\<close>


definition slice_index :: "str \<Rightarrow> int \<Rightarrow> nat" where
  \<comment> \<open>how a slice bound is read: a negative bound counts from the end, and every bound
      is clamped to the string\<close>
  "slice_index p i =
     (let n = int (length p) in nat (if i < 0 then max 0 (i + n) else min i n))"

definition slice :: "str \<Rightarrow> int \<Rightarrow> int \<Rightarrow> str" where
  \<comment> \<open>\<open>p[i:j]\<close>\<close>
  "slice p i j = take (slice_index p j - slice_index p i) (drop (slice_index p i) p)"









section \<open>The loop body run step by step\<close>

text \<open>
  \<open>pattern.sub\<close> and \<open>str.strip\<close> are loops over the positions of a string. Here they are
  written as the loops they are, so that returning at all and never reading outside the
  string are properties to prove: a function below gives \<open>None\<close> when its loop does not
  end, \<open>Some (Inl OutOfRange)\<close> when it reads a position the string does not have, and
  \<open>Some (Inr r)\<close> when it returns \<open>r\<close>. The pattern matches exactly one character, so
  \<open>sub\<close> looks at each position once, from the left, and copies the character there unless
  the pattern matches it. \<open>strip\<close> moves an index \<open>i\<close> up from 0 over leading whitespace,
  an index \<open>j\<close> down from the last position over trailing whitespace, but not below
  \<open>i\<close>, and returns the slice \<open>s[i:j+1]\<close>.
\<close>

datatype error = OutOfRange

definition in_range :: "str \<Rightarrow> int \<Rightarrow> bool" where
  \<comment> \<open>the positions a string has\<close>
  "in_range s i \<longleftrightarrow> 0 \<le> i \<and> i < int (length s)"

partial_function (option) sub_scan :: "str \<Rightarrow> int \<Rightarrow> str \<Rightarrow> (error + str) option" where
  "sub_scan line pos out =
     (if pos < int (length line) then
        (if in_range line pos then
           sub_scan line (pos + 1)
             (if pattern_matches (line ! nat pos) then out else out @ [line ! nat pos])
         else Some (Inl OutOfRange))
      else Some (Inr out))"

partial_function (option) lstrip_scan :: "str \<Rightarrow> int \<Rightarrow> (error + int) option" where
  "lstrip_scan s i =
     (if i < int (length s) then
        (if in_range s i then
           (if Py_UNICODE_ISSPACE (s ! nat i) then lstrip_scan s (i + 1) else Some (Inr i))
         else Some (Inl OutOfRange))
      else Some (Inr i))"

partial_function (option) rstrip_scan :: "str \<Rightarrow> int \<Rightarrow> int \<Rightarrow> (error + int) option" where
  "rstrip_scan s i j =
     (if i \<le> j then
        (if in_range s j then
           (if Py_UNICODE_ISSPACE (s ! nat j) then rstrip_scan s i (j - 1) else Some (Inr j))
         else Some (Inl OutOfRange))
      else Some (Inr j))"

definition strip_run :: "str \<Rightarrow> (error + str) option" where
  \<comment> \<open>\<open>s.strip()\<close>, run\<close>
  "strip_run s =
     (case lstrip_scan s 0 of
        None \<Rightarrow> None
      | Some (Inl e) \<Rightarrow> Some (Inl e)
      | Some (Inr i) \<Rightarrow>
          (case rstrip_scan s i (int (length s) - 1) of
             None \<Rightarrow> None
           | Some (Inl e) \<Rightarrow> Some (Inl e)
           | Some (Inr j) \<Rightarrow> Some (Inr (slice s i (j + 1)))))"

definition filterLine_run :: "str \<Rightarrow> (error + str option) option" where
  \<comment> \<open>lines 69-74 run on one line: the removal, the stripping and the test of the result\<close>
  "filterLine_run line =
     (case sub_scan line 0 [] of
        None \<Rightarrow> None
      | Some (Inl e) \<Rightarrow> Some (Inl e)
      | Some (Inr cleaned_line) \<Rightarrow>
          (case strip_run cleaned_line of
             None \<Rightarrow> None
           | Some (Inl e) \<Rightarrow> Some (Inl e)
           | Some (Inr stripped_line) \<Rightarrow>
               Some (Inr (if stripped_line \<noteq> [] then Some stripped_line else None))))"

section \<open>The whitelist as the specification words it\<close>

definition spec_whitelist :: "nat \<Rightarrow> bool" where
  \<comment> \<open>the membership rule of the specification, item by item; "Unicode whitespace" is
      read as the specification defines it, the \<open>\s\<close> class of the pattern\<close>
  "spec_whitelist c \<longleftrightarrow>
     (0x4E00 \<le> c \<and> c \<le> 0x9FA5) \<or>
     (0x41 \<le> c \<and> c \<le> 0x5A) \<or> (0x61 \<le> c \<and> c \<le> 0x7A) \<or>
     (0x30 \<le> c \<and> c \<le> 0x39) \<or>
     Py_UNICODE_ISSPACE c \<or>
     c \<in> {0x2C, 0x2E, 0x21, 0x3F, 0x3B, 0x3A, 0x27, 0x22,
          0x201C, 0x201D, 0x2018, 0x2019,
          0xFF0C, 0x3002, 0xFF01, 0xFF1F, 0xFF1B, 0xFF1A,
          0x3001, 0x300A, 0x300B, 0x3008, 0x3009, 0x3010, 0x3011, 0x3016, 0x3017,
          0x2026, 0x2014, 0x2D, 0xB7}"

definition CharacterWhitelist :: "nat set" where
  \<comment> \<open>the CharacterWhitelist of the specification: the characters its membership rule
      accepts\<close>
  "CharacterWhitelist = {c. spec_whitelist c}"

section \<open>Notions used to state and prove the path properties\<close>



section \<open>Lemmas about the removal pass and stripping\<close>

lemma pattern_sub_filter: "pattern_sub s = filter (\<lambda>c. \<not> pattern_matches c) s"
  by (induction s) simp_all

lemma set_pattern_sub: "set (pattern_sub s) = {c \<in> set s. \<not> pattern_matches c}"
  by (simp add: pattern_sub_filter)

lemma set_lstrip: "set (lstrip s) \<subseteq> set s"
  unfolding lstrip_def by (auto dest: set_dropWhileD)

lemma set_rstrip: "set (rstrip s) \<subseteq> set s"
  unfolding rstrip_def by (auto dest: set_dropWhileD)

lemma set_strip: "set (strip s) \<subseteq> set s"
  unfolding strip_def using set_lstrip set_rstrip by blast

lemma lstrip_all_space: "\<forall>c \<in> set s. Py_UNICODE_ISSPACE c \<Longrightarrow> lstrip s = []"
  unfolding lstrip_def by simp

lemma strip_all_space: "\<forall>c \<in> set s. Py_UNICODE_ISSPACE c \<Longrightarrow> strip s = []"
  unfolding strip_def by (simp add: lstrip_all_space rstrip_def)

lemma lstrip_hd: "lstrip s \<noteq> [] \<Longrightarrow> \<not> Py_UNICODE_ISSPACE (hd (lstrip s))"
  unfolding lstrip_def by (simp add: hd_dropWhile)

lemma rstrip_last: "rstrip s \<noteq> [] \<Longrightarrow> \<not> Py_UNICODE_ISSPACE (last (rstrip s))"
  unfolding rstrip_def by (simp add: last_rev hd_dropWhile)

lemma lstrip_id: "s \<noteq> [] \<Longrightarrow> \<not> Py_UNICODE_ISSPACE (hd s) \<Longrightarrow> lstrip s = s"
  unfolding lstrip_def by (cases s) simp_all

lemma rstrip_id: "s \<noteq> [] \<Longrightarrow> \<not> Py_UNICODE_ISSPACE (last s) \<Longrightarrow> rstrip s = s"
  unfolding rstrip_def by (cases "rev s") (simp_all add: last_rev[symmetric] hd_rev)

lemma rstrip_hd: "rstrip s \<noteq> [] \<Longrightarrow> hd (rstrip s) = hd s"
proof -
  assume a: "rstrip s \<noteq> []"
  have "\<exists>zs. s = rstrip s @ zs"
    unfolding rstrip_def
    by (metis append_Nil2 rev_append rev_rev_ident takeWhile_dropWhile_id)
  then obtain zs where "s = rstrip s @ zs" ..
  then have "hd s = hd (rstrip s @ zs)" by simp
  with a show ?thesis by simp
qed

lemma strip_hd: "strip s \<noteq> [] \<Longrightarrow> \<not> Py_UNICODE_ISSPACE (hd (strip s))"
  unfolding strip_def
  by (metis lstrip_hd rstrip_hd rstrip_def rev.simps(1) dropWhile.simps(1))

lemma strip_last: "strip s \<noteq> [] \<Longrightarrow> \<not> Py_UNICODE_ISSPACE (last (strip s))"
  unfolding strip_def by (rule rstrip_last)

lemma strip_id: "s \<noteq> [] \<Longrightarrow> \<not> Py_UNICODE_ISSPACE (hd s) \<Longrightarrow> \<not> Py_UNICODE_ISSPACE (last s) \<Longrightarrow> strip s = s"
  unfolding strip_def by (simp add: lstrip_id rstrip_id)

lemma strip_strip: "strip (strip s) = strip s"
proof (cases "strip s = []")
  case True
  have "strip [] = []" by (simp add: strip_def lstrip_def rstrip_def)
  with True show ?thesis by simp
next
  case False
  then show ?thesis by (simp add: strip_id strip_hd strip_last)
qed

lemma pattern_sub_id: "\<forall>c \<in> set s. \<not> pattern_matches c \<Longrightarrow> pattern_sub s = s"
  by (induction s) simp_all

lemma pattern_sub_kept: "\<forall>c \<in> set (pattern_sub s). \<not> pattern_matches c"
  by (simp add: set_pattern_sub)

lemma filterLine_Some: "filterLine s = Some t \<longleftrightarrow> t = strip (pattern_sub s) \<and> t \<noteq> []"
  by (auto simp: filterLine_def Let_def)

lemma filterLine_None: "filterLine s = None \<longleftrightarrow> strip (pattern_sub s) = []"
  by (simp add: filterLine_def Let_def)

lemma char_class_spec: "char_class c \<longleftrightarrow> spec_whitelist c \<or> c = 0x7E"
  unfolding char_class_def spec_whitelist_def by auto

lemma kept_iff: "\<not> pattern_matches c \<longleftrightarrow> c \<in> CharacterWhitelist \<or> c = 0x7E"
  by (simp add: pattern_matches_def char_class_spec CharacterWhitelist_def)

lemma tilde_not_listed: "0x7E \<notin> CharacterWhitelist"
  by (simp add: CharacterWhitelist_def spec_whitelist_def Py_UNICODE_ISSPACE_def)

lemmas eval_defs = filterLine_def strip_def lstrip_def rstrip_def pattern_matches_def
  char_class_def Py_UNICODE_ISSPACE_def str_of_def

section \<open>Lemmas about the scans\<close>

lemma sub_scan_eq:
  "0 \<le> pos \<Longrightarrow> sub_scan line pos out = Some (Inr (out @ pattern_sub (drop (nat pos) line)))"
proof (induction "length line - nat pos" arbitrary: pos out)
  case 0
  then have "\<not> pos < int (length line)" and "drop (nat pos) line = []" by simp_all
  then show ?case by (subst sub_scan.simps) simp
next
  case (Suc n)
  then have lt: "nat pos < length line" and r: "in_range line pos" by (simp_all add: in_range_def)
  have d: "drop (nat pos) line = line ! nat pos # drop (nat (pos + 1)) line"
    using lt Suc.prems by (simp add: Cons_nth_drop_Suc nat_add_distrib)
  have "n = length line - nat (pos + 1)" using Suc.hyps(2) Suc.prems by (simp add: nat_add_distrib)
  from Suc.hyps(1)[OF this] Suc.prems
  have ih: "\<And>out. sub_scan line (pos + 1) out = Some (Inr (out @ pattern_sub (drop (nat (pos + 1)) line)))"
    by simp
  show ?case using lt r Suc.prems by (subst sub_scan.simps) (simp add: ih d)
qed

lemma lstrip_scan_eq:
  "0 \<le> i \<Longrightarrow> i \<le> int (length s) \<Longrightarrow>
   lstrip_scan s i = Some (Inr (i + int (length (takeWhile Py_UNICODE_ISSPACE (drop (nat i) s)))))"
proof (induction "length s - nat i" arbitrary: i)
  case 0
  then have "\<not> i < int (length s)" and "drop (nat i) s = []" by simp_all
  then show ?case by (subst lstrip_scan.simps) simp
next
  case (Suc n)
  then have lt: "nat i < length s" and r: "in_range s i" by (simp_all add: in_range_def)
  have d: "drop (nat i) s = s ! nat i # drop (nat (i + 1)) s"
    using lt Suc.prems by (simp add: Cons_nth_drop_Suc nat_add_distrib)
  have "n = length s - nat (i + 1)" using Suc.hyps(2) Suc.prems by (simp add: nat_add_distrib)
  from Suc.hyps(1)[OF this] Suc.prems lt
  have ih: "lstrip_scan s (i + 1) = Some (Inr (i + 1 + int (length (takeWhile Py_UNICODE_ISSPACE (drop (nat (i + 1)) s)))))"
    by simp
  show ?case using lt r Suc.prems by (subst lstrip_scan.simps) (simp add: ih d)
qed

lemma rstrip_scan_eq:
  "- 1 \<le> j \<Longrightarrow> j < int (length s) \<Longrightarrow> 0 \<le> i \<Longrightarrow> i - 1 \<le> j \<Longrightarrow>
   rstrip_scan s i j =
     Some (Inr (j - int (length (takeWhile Py_UNICODE_ISSPACE (rev (take (nat (j + 1) - nat i) (drop (nat i) s)))))))"
proof (induction "nat (j + 1) - nat i" arbitrary: j)
  case 0
  then have "j < i" by simp
  then show ?case using 0 by (subst rstrip_scan.simps) simp
next
  case (Suc n)
  then have le: "i \<le> j" and r: "in_range s j" by (simp_all add: in_range_def)
  let ?m = "nat (j + 1) - nat i"
  have m: "?m = Suc (nat j - nat i)" using le Suc.prems by (simp add: nat_add_distrib Suc_diff_le)
  have len: "nat i + (nat j - nat i) < length s" using le Suc.prems by simp
  have t: "take ?m (drop (nat i) s) = take (nat j - nat i) (drop (nat i) s) @ [s ! nat j]"
    unfolding m using len le Suc.prems by (simp add: take_Suc_conv_app_nth)
  have "n = nat (j - 1 + 1) - nat i" using Suc.hyps(2) m by simp
  from Suc.hyps(1)[OF this] Suc.prems le
  have ih: "rstrip_scan s i (j - 1) =
     Some (Inr (j - 1 - int (length (takeWhile Py_UNICODE_ISSPACE (rev (take (nat j - nat i) (drop (nat i) s)))))))"
    by simp
  show ?case using le r by (subst rstrip_scan.simps) (simp add: ih t)
qed


lemma strip_run_eq: "strip_run s = Some (Inr (strip s))"
proof -
  let ?l = "length (takeWhile Py_UNICODE_ISSPACE s)"
  let ?t = "length (takeWhile Py_UNICODE_ISSPACE (rev (lstrip s)))"
  have i: "lstrip_scan s 0 = Some (Inr (int ?l))"
    using lstrip_scan_eq[of 0 s] by simp
  have le: "?l \<le> length s" by (rule length_takeWhile_le)
  have d: "drop ?l s = lstrip s"
    by (simp add: lstrip_def dropWhile_eq_drop)
  have len: "length (lstrip s) = length s - ?l"
    unfolding d[symmetric] by simp
  have tl: "?t \<le> length (lstrip s)"
    using length_takeWhile_le[of Py_UNICODE_ISSPACE "rev (lstrip s)"] by simp
  have tk: "take (nat (int (length s) - 1 + 1) - nat (int ?l)) (drop (nat (int ?l)) s) = lstrip s"
    by (simp add: d len)
  have j: "rstrip_scan s (int ?l) (int (length s) - 1) = Some (Inr (int (length s) - 1 - int ?t))"
    using rstrip_scan_eq[of "int (length s) - 1" s "int ?l"] le unfolding tk by simp
  have i1: "slice_index s (int ?l) = ?l"
    using le by (simp add: slice_index_def Let_def)
  have i2: "slice_index s (int (length s) - int ?t) = length s - ?t"
    using tl len by (simp add: slice_index_def Let_def min_def nat_diff_distrib')
  have "slice s (int ?l) (int (length s) - 1 - int ?t + 1) = take (length s - ?t - ?l) (lstrip s)"
    by (simp add: slice_def i1 i2 d)
  also have "length s - ?t - ?l = length (lstrip s) - ?t"
    using len by simp
  also have "take (length (lstrip s) - ?t) (lstrip s) = rev (drop ?t (rev (lstrip s)))"
    by (simp add: rev_drop)
  also have "\<dots> = strip s"
    by (simp add: strip_def rstrip_def dropWhile_eq_drop)
  finally show ?thesis using i j by (simp add: strip_run_def)
qed

lemma filterLine_run_eq: "filterLine_run s = Some (Inr (filterLine s))"
  using sub_scan_eq[of 0 s "[]"]
  by (simp add: filterLine_run_def strip_run_eq filterLine_def Let_def)

section \<open>Lemmas about lines and the loop\<close>

lemma for_loop_map_filter:
  "for_loop ls out = out @ map (\<lambda>t. t @ [0x0A]) (List.map_filter filterLine ls)"
  by (induction ls arbitrary: out) (simp_all add: map_filter_simps filterLine_def file_write_def Let_def)

lemma translate_newlines_no_cr: "0x0D \<notin> set (translate_newlines s)"
  by (induction s rule: translate_newlines.induct) simp_all

lemma concat_readlines: "concat (readlines s) = s"
  by (induction s) (auto split: list.splits)

lemma readlines_nl: "l \<in> set (readlines s) \<Longrightarrow> l \<noteq> [] \<and> 0x0A \<notin> set (butlast l)"
proof (induction s arbitrary: l)
  case Nil
  then show ?case by simp
next
  case (Cons c cs)
  show ?case
  proof (cases "c = 0x0A")
    case True
    with Cons show ?thesis by auto
  next
    case False
    show ?thesis
    proof (cases "readlines cs")
      case Nil
      with False Cons.prems show ?thesis by simp
    next
      case (Cons l' ls)
      with False Cons.prems have "l = c # l' \<or> l \<in> set ls" by auto
      moreover have "l' \<noteq> [] \<and> 0x0A \<notin> set (butlast l')"
        using Cons.IH[of l'] Cons by simp
      moreover have "l \<in> set ls \<Longrightarrow> l \<noteq> [] \<and> 0x0A \<notin> set (butlast l)"
        using Cons.IH[of l] Cons by simp
      ultimately show ?thesis using False by auto
    qed
  qed
qed

lemma in_file_line:
  assumes "l \<in> set (in_file content)"
  shows "l \<noteq> []" and "0x0A \<notin> set (butlast l)" and "0x0D \<notin> set l"
proof -
  from assms have m: "l \<in> set (readlines (translate_newlines content))"
    by (simp add: in_file_def)
  from readlines_nl[OF m] show "l \<noteq> []" and "0x0A \<notin> set (butlast l)" by simp_all
  have "set l \<subseteq> set (concat (readlines (translate_newlines content)))"
    using m by auto
  then show "0x0D \<notin> set l"
    using translate_newlines_no_cr[of content] by (auto simp: concat_readlines)
qed

lemma pattern_sub_append: "pattern_sub (xs @ ys) = pattern_sub xs @ pattern_sub ys"
  by (simp add: pattern_sub_filter)

lemma rstrip_snoc_space: "Py_UNICODE_ISSPACE x \<Longrightarrow> rstrip (ys @ [x]) = rstrip ys"
  by (simp add: rstrip_def)

lemma strip_snoc_space:
  assumes "Py_UNICODE_ISSPACE x"
  shows "strip (ys @ [x]) = strip ys"
proof (cases "\<forall>c \<in> set ys. Py_UNICODE_ISSPACE c")
  case True
  with assms have "\<forall>c \<in> set (ys @ [x]). Py_UNICODE_ISSPACE c" by simp
  then have "strip (ys @ [x]) = []" by (rule strip_all_space)
  moreover from True have "strip ys = []" by (rule strip_all_space)
  ultimately show ?thesis by simp
next
  case False
  then have "lstrip (ys @ [x]) = lstrip ys @ [x]"
    by (auto simp: lstrip_def dropWhile_append1)
  then show ?thesis by (simp add: strip_def rstrip_snoc_space[OF assms])
qed

lemma nl_is_space: "Py_UNICODE_ISSPACE 0x0A"
  by (simp add: Py_UNICODE_ISSPACE_def)

lemma pattern_sub_nl: "pattern_sub [0x0A] = [0x0A]"
  by (simp add: pattern_matches_def char_class_def nl_is_space)

lemma stripped_no_nl:
  assumes "0x0A \<notin> set (butlast l)"
  shows "0x0A \<notin> set (strip (pattern_sub l))"
proof (cases "l = [] \<or> last l \<noteq> 0x0A")
  case True
  with assms have "0x0A \<notin> set l"
    by (cases l rule: rev_cases) auto
  then show ?thesis using set_strip[of "pattern_sub l"] by (auto simp: set_pattern_sub)
next
  case False
  then obtain b where l: "l = b @ [0x0A]"
    by (cases l rule: rev_cases) auto
  with assms have b: "0x0A \<notin> set b" by simp
  have "strip (pattern_sub l) = strip (pattern_sub b)"
    unfolding l pattern_sub_append pattern_sub_nl by (rule strip_snoc_space[OF nl_is_space])
  then show ?thesis using b set_strip[of "pattern_sub b"] by (auto simp: set_pattern_sub)
qed

lemma stripped_no_cr: "0x0D \<notin> set l \<Longrightarrow> 0x0D \<notin> set (strip (pattern_sub l))"
  using set_strip[of "pattern_sub l"] by (auto simp: set_pattern_sub)

lemma set_map_filter: "set (List.map_filter f xs) = {y. \<exists>x \<in> set xs. f x = Some y}"
  by (induction xs) (auto simp: map_filter_simps split: option.splits)

lemma out_file_writes_shape:
  assumes "w \<in> set (out_file_writes content)"
  shows "\<exists>l. w = l @ [0x0A] \<and> l \<noteq> [] \<and> 0x0A \<notin> set l \<and> 0x0D \<notin> set l"
proof -
  from assms obtain line t where line: "line \<in> set (in_file content)"
    and t: "filterLine line = Some t" and w: "w = t @ [0x0A]"
    by (auto simp: out_file_writes_def for_loop_map_filter set_map_filter)
  from t have ts: "t = strip (pattern_sub line)" and ne: "t \<noteq> []"
    by (auto simp: filterLine_Some)
  have "0x0A \<notin> set t" unfolding ts by (rule stripped_no_nl) (rule in_file_line(2)[OF line])
  moreover have "0x0D \<notin> set t" unfolding ts by (rule stripped_no_cr) (rule in_file_line(3)[OF line])
  ultimately show ?thesis using w ne by blast
qed

lemma readlines_line: "0x0A \<notin> set l \<Longrightarrow> readlines (l @ 0x0A # rest) = (l @ [0x0A]) # readlines rest"
  by (induction l) simp_all

lemma readlines_concat:
  "\<forall>w \<in> set ws. \<exists>l. w = l @ [0x0A] \<and> 0x0A \<notin> set l \<Longrightarrow> readlines (concat ws) = ws"
proof (induction ws)
  case Nil
  then show ?case by simp
next
  case (Cons w ws)
  then obtain l where "w = l @ [0x0A]" and "0x0A \<notin> set l" by auto
  with Cons show ?case by (simp add: readlines_line)
qed

section \<open>Lemmas about the output path\<close>


































section \<open>The character whitelist\<close>

text \<open>
  C1. The removal pass keeps a character exactly when it is in the range U+4E00-U+9FA5, an
  ASCII letter, an ASCII digit, a whitespace character of the \<open>\s\<close> class, one of the
  punctuation marks the specification lists, or the tilde \<open>~\<close> (U+007E), which the pattern
  also names; every other character is removed.
\<close>

theorem whitelist_membership:
  "pattern_sub (c # cs) = (if spec_whitelist c \<or> c = 0x7E then c # pattern_sub cs else pattern_sub cs)"
  by (simp add: pattern_matches_def char_class_spec)

text \<open>
  The membership rule as the specification words it leaves the tilde out, yet the removal
  pass keeps it.
\<close>

theorem whitelist_membership_counterexample:
  "pattern_sub [0x7E] = [0x7E] \<and> \<not> spec_whitelist 0x7E"
  by (simp add: pattern_matches_def char_class_def spec_whitelist_def Py_UNICODE_ISSPACE_def)

text \<open>
  C6. The removal pass never reorders: its result is the subsequence of the characters of
  the input, in their order, that belong to the specification's whitelist or are the
  tilde \<open>~\<close> (U+007E).
\<close>

theorem removal_keeps_order:
  "pattern_sub s = filter (\<lambda>c. c \<in> CharacterWhitelist \<or> c = 0x7E) s \<and> subseq (pattern_sub s) s"
  by (simp add: pattern_sub_filter kept_iff)

text \<open>
  With the whitelist as the specification words it the statement fails on \<open>a~b\<close>: the
  pass returns the three characters, the whitelist holds only two of them.
\<close>

theorem removal_keeps_order_counterexample:
  "pattern_sub [0x61, 0x7E, 0x62] = [0x61, 0x7E, 0x62] \<and>
   filter (\<lambda>c. c \<in> CharacterWhitelist) [0x61, 0x7E, 0x62] = [0x61, 0x62]"
  by (simp add: pattern_matches_def char_class_def CharacterWhitelist_def spec_whitelist_def
      Py_UNICODE_ISSPACE_def)

section \<open>One line\<close>

text \<open>
  C2. A line made only of whitespace and of characters that are neither in the
  specification's whitelist nor the tilde \<open>~\<close> (U+007E) is suppressed: nothing is written
  for it.
\<close>

theorem blank_suppression:
  "\<forall>c \<in> set s. Py_UNICODE_ISSPACE c \<or> (c \<notin> CharacterWhitelist \<and> c \<noteq> 0x7E) \<Longrightarrow>
   filterLine s = None"
proof -
  assume a: "\<forall>c \<in> set s. Py_UNICODE_ISSPACE c \<or> (c \<notin> CharacterWhitelist \<and> c \<noteq> 0x7E)"
  have "\<forall>c \<in> set (pattern_sub s). Py_UNICODE_ISSPACE c"
    using a by (auto simp: set_pattern_sub kept_iff)
  then have "strip (pattern_sub s) = []" by (rule strip_all_space)
  then show ?thesis by (simp add: filterLine_None)
qed

theorem blank_suppression_witness:
  "filterLine [0x20, 0x09, 0x40, 0x1F600, 0x0A] = None"
proof -
  have h: "\<forall>c \<in> set [0x20, 0x09, 0x40, 0x1F600, 0x0A].
      Py_UNICODE_ISSPACE c \<or> (c \<notin> CharacterWhitelist \<and> c \<noteq> 0x7E)"
    by (simp add: CharacterWhitelist_def spec_whitelist_def Py_UNICODE_ISSPACE_def)
  from blank_suppression [OF h] show ?thesis .
qed

text \<open>
  With the whitelist as the specification words it the statement fails: the line
  \<open>~ ~\<close> with its terminator holds only whitespace and a character the whitelist does not
  list, and it is written.
\<close>

theorem blank_suppression_counterexample:
  "0x7E \<notin> CharacterWhitelist \<and> Py_UNICODE_ISSPACE 0x20 \<and> Py_UNICODE_ISSPACE 0x0A \<and>
   filterLine [0x7E, 0x20, 0x7E, 0x0A] = Some [0x7E, 0x20, 0x7E]"
  by (simp add: CharacterWhitelist_def spec_whitelist_def eval_defs)

text \<open>
  C3. Filtering is idempotent: a line that was written is written unchanged when it is
  filtered again.
\<close>

theorem filterLine_idempotent: "filterLine s = Some t \<Longrightarrow> filterLine t = Some t"
proof -
  assume "filterLine s = Some t"
  then have t: "t = strip (pattern_sub s)" and ne: "t \<noteq> []"
    by (auto simp: filterLine_Some)
  have "\<forall>c \<in> set t. \<not> pattern_matches c"
    unfolding t using set_strip[of "pattern_sub s"] pattern_sub_kept[of s] by blast
  then have "pattern_sub t = t" by (rule pattern_sub_id)
  moreover have "strip t = t" unfolding t by (rule strip_strip)
  ultimately show ?thesis using ne by (simp add: filterLine_Some)
qed

theorem filterLine_idempotent_witness:
  "filterLine (str_of ''Hello, '' @ [0x4E16, 0x754C] @ str_of ''! 123 @@@'')
     = Some (str_of ''Hello, '' @ [0x4E16, 0x754C] @ str_of ''! 123'') \<and>
   filterLine (str_of ''Hello, '' @ [0x4E16, 0x754C] @ str_of ''! 123'')
     = Some (str_of ''Hello, '' @ [0x4E16, 0x754C] @ str_of ''! 123'')"
proof -
  have h: "filterLine (str_of ''Hello, '' @ [0x4E16, 0x754C] @ str_of ''! 123 @@@'')
     = Some (str_of ''Hello, '' @ [0x4E16, 0x754C] @ str_of ''! 123'')"
    by (simp add: eval_defs)
  from h filterLine_idempotent [OF h] show ?thesis by (rule conjI)
qed

text \<open>
  C4. Every character of a written line is in the specification's whitelist or is the
  tilde \<open>~\<close> (U+007E), and a written line is never empty.
\<close>

theorem whitelist_closure:
  "filterLine s = Some t \<Longrightarrow> set t \<subseteq> CharacterWhitelist \<union> {0x7E} \<and> t \<noteq> []"
proof -
  assume "filterLine s = Some t"
  then have t: "t = strip (pattern_sub s)" and ne: "t \<noteq> []"
    by (auto simp: filterLine_Some)
  have "\<forall>c \<in> set t. \<not> pattern_matches c"
    unfolding t using set_strip[of "pattern_sub s"] pattern_sub_kept[of s] by blast
  then have "set t \<subseteq> CharacterWhitelist \<union> {0x7E}" by (auto simp: kept_iff)
  with ne show ?thesis by simp
qed

theorem whitelist_closure_witness:
  "filterLine (str_of ''emoji '' @ [0x1F600] @ str_of '' ~test'') = Some (str_of ''emoji  ~test'') \<and>
   set (str_of ''emoji  ~test'') \<subseteq> CharacterWhitelist \<union> {0x7E} \<and> str_of ''emoji  ~test'' \<noteq> []"
proof -
  have h: "filterLine (str_of ''emoji '' @ [0x1F600] @ str_of '' ~test'') = Some (str_of ''emoji  ~test'')"
    by (simp add: eval_defs)
  from h whitelist_closure [OF h] show ?thesis by (rule conjI)
qed

text \<open>
  With the whitelist as the specification words it the statement fails: the line \<open>~\<close> is
  written as it is, and the whitelist does not list its character.
\<close>

theorem whitelist_closure_counterexample:
  "filterLine [0x7E] = Some [0x7E] \<and> 0x7E \<notin> CharacterWhitelist"
  by (simp add: CharacterWhitelist_def spec_whitelist_def eval_defs)

text \<open>
  C9. Filtering a line always gives a result, whatever code points the line holds: run
  step by step, the removal and the stripping end, read no position outside the string,
  and return what \<open>filterLine\<close> describes, which is either nothing or a non-empty string.
\<close>

theorem filterLine_total:
  "filterLine_run s = Some (Inr (filterLine s)) \<and>
   (filterLine s = None \<or> (\<exists>t. filterLine s = Some t \<and> t \<noteq> []))"
  using filterLine_run_eq[of s] by (auto simp: filterLine_def Let_def)

theorem filterLine_total_witness:
  "filterLine_run [0xD800, 0x00, 0x61, 0x10FFFF, 0x200B] = Some (Inr (Some [0x61]))"
proof -
  have h: "filterLine [0xD800, 0x00, 0x61, 0x10FFFF, 0x200B] = Some [0x61]"
    by (simp add: eval_defs)
  from filterLine_total [of "[0xD800, 0x00, 0x61, 0x10FFFF, 0x200B]"] show ?thesis
    unfolding h by simp
qed

section \<open>The whole file\<close>

text \<open>
  C5. The strings written are, in order, the filtered input lines that were not
  suppressed, each followed by its terminator: the loop adds to what was written before
  the in-order map of \<open>filterLine\<close> over the lines with the absent results skipped, one
  string for each line that is not suppressed.
\<close>

theorem order_preservation:
  "for_loop ls out_file = out_file @ map (\<lambda>t. t @ [0x0A]) (List.map_filter filterLine ls) \<and>
   length (for_loop ls []) = length (filter (\<lambda>l. filterLine l \<noteq> None) ls)"
  by (simp add: for_loop_map_filter map_filter_def)

theorem order_preservation_witness:
  "for_loop [str_of ''one'' @ [0x0A], [0x20, 0x0A], str_of ''two''] []
     = map (\<lambda>t. t @ [0x0A]) [str_of ''one'', str_of ''two'']"
  using order_preservation [of "[str_of ''one'' @ [0x0A], [0x20, 0x0A], str_of ''two'']" "[]"]
  by (simp add: map_filter_simps eval_defs)

text \<open>
  C8. Every string written is a non-empty line without \<open>\n\<close> or \<open>\r\<close> followed by the
  single character \<open>\n\<close>, whatever terminators the input uses; the output holds no \<open>\r\<close>
  at all, and splitting it at \<open>\n\<close> gives back exactly the strings written.
\<close>

theorem output_terminator:
  "(\<forall>w \<in> set (out_file_writes content). \<exists>l. w = l @ [0x0A] \<and> l \<noteq> [] \<and> 0x0A \<notin> set l \<and> 0x0D \<notin> set l) \<and>
   0x0D \<notin> set (out_file_content content) \<and>
   readlines (out_file_content content) = out_file_writes content"
proof (intro conjI)
  show a: "\<forall>w \<in> set (out_file_writes content). \<exists>l. w = l @ [0x0A] \<and> l \<noteq> [] \<and> 0x0A \<notin> set l \<and> 0x0D \<notin> set l"
    using out_file_writes_shape by blast
  then show "0x0D \<notin> set (out_file_content content)"
    by (fastforce simp: out_file_content_def)
  from a have "\<forall>w \<in> set (out_file_writes content). \<exists>l. w = l @ [0x0A] \<and> 0x0A \<notin> set l"
    by blast
  then show "readlines (out_file_content content) = out_file_writes content"
    unfolding out_file_content_def by (rule readlines_concat)
qed

theorem output_terminator_witness:
  "out_file_writes (str_of ''a'' @ [0x0D, 0x0A] @ str_of '' b @'' @ [0x0D, 0x0A, 0x0A] @ str_of ''#'' @ [0x0D] @ str_of ''c'')
     = map (\<lambda>t. t @ [0x0A]) [str_of ''a'', str_of ''b'', str_of ''c''] \<and>
   0x0D \<notin> set (out_file_content (str_of ''a'' @ [0x0D, 0x0A] @ str_of '' b @'' @ [0x0D, 0x0A, 0x0A] @ str_of ''#'' @ [0x0D] @ str_of ''c'')) \<and>
   readlines (out_file_content (str_of ''a'' @ [0x0D, 0x0A] @ str_of '' b @'' @ [0x0D, 0x0A, 0x0A] @ str_of ''#'' @ [0x0D] @ str_of ''c''))
     = map (\<lambda>t. t @ [0x0A]) [str_of ''a'', str_of ''b'', str_of ''c'']"
proof -
  have h: "out_file_writes (str_of ''a'' @ [0x0D, 0x0A] @ str_of '' b @'' @ [0x0D, 0x0A, 0x0A] @ str_of ''#'' @ [0x0D] @ str_of ''c'')
     = map (\<lambda>t. t @ [0x0A]) [str_of ''a'', str_of ''b'', str_of ''c'']"
    by (simp add: out_file_writes_def in_file_def file_write_def eval_defs Let_def)
  from output_terminator [of "str_of ''a'' @ [0x0D, 0x0A] @ str_of '' b @'' @ [0x0D, 0x0A, 0x0A] @ str_of ''#'' @ [0x0D] @ str_of ''c''"]
  show ?thesis unfolding h by blast
qed

section \<open>The output path\<close>





end
